theory Spec2Isabelle
  imports Main "HOL-Library.Word" "HOL-Library.Option_ord"
begin

unbundle bit_operations_syntax

section \<open>Capture requests (src/libcamera/request.cpp)\<close>

subsection \<open>Objects and pointers\<close>

text \<open>
  Objects are named by their addresses. A pointer that the code tests against
  \<^verbatim>\<open>nullptr\<close> is an \<open>option\<close>; a pointer that the code dereferences without a test
  (the \<^verbatim>\<open>unique_ptr<Buffer>\<close> handed to \<^verbatim>\<open>addBuffer\<close>, the \<^verbatim>\<open>Buffer *\<close> handed to
  \<^verbatim>\<open>completeBuffer\<close>) names a live object. Destruction of objects is not modelled.
\<close>

type_synonym stream_ptr = nat
type_synonym buffer_ptr = nat
type_synonym request_ptr = nat
type_synonym camera_ptr = nat

text \<open>
  Modelled from the spec: the \<^verbatim>\<open>Buffer\<close> class (buffer.h is absent). Of its attributes
  request.cpp reads \<^verbatim>\<open>stream()\<close> and \<^verbatim>\<open>status()\<close> and writes the owning request through
  \<^verbatim>\<open>setRequest()\<close>; the status is one of Success and Cancelled.
\<close>

datatype BufferStatus = BufferSuccess | BufferCancelled

record Buffer =
  buf_stream :: "stream_ptr option"
  buf_status :: BufferStatus
  buf_request :: "request_ptr option"

type_synonym heap = "buffer_ptr \<Rightarrow> Buffer"

definition setRequest :: "request_ptr option \<Rightarrow> buffer_ptr \<Rightarrow> heap \<Rightarrow> heap" where
  "setRequest req buffer h = h(buffer := (h buffer)\<lparr>buf_request := req\<rparr>)"

text \<open>The values of \<^verbatim>\<open>errno.h\<close> on Linux.\<close>

definition EINVAL :: int where "EINVAL = 22"
definition EEXIST :: int where "EEXIST = 17"

subsection \<open>The request\<close>

datatype Status = RequestPending | RequestComplete | RequestCancelled

text \<open>
  \<^verbatim>\<open>bufferMap_\<close> is a \<^verbatim>\<open>std::map<Stream *, Buffer *>\<close>: an association list kept in
  key order, which is the order its iteration follows. \<^verbatim>\<open>pending_\<close> is a
  \<^verbatim>\<open>std::set<Buffer *>\<close>. The control list \<^verbatim>\<open>controls_\<close> is not touched by any function
  of request.cpp beyond its construction and is left out. The members keep their names
  without the trailing underscore.
\<close>

record Request =
  camera :: camera_ptr
  cookie :: "64 word"
  bufferMap :: "(stream_ptr option \<times> buffer_ptr) list"
  status :: Status
  cancelled :: bool
  pending :: "buffer_ptr set"

text \<open>\<^verbatim>\<open>Request::Request(Camera *camera, uint64_t cookie)\<close>\<close>

definition Request_init :: "camera_ptr \<Rightarrow> 64 word \<Rightarrow> Request" where
  "Request_init c k =
     \<lparr>camera = c, cookie = k, bufferMap = [],
      status = RequestPending, cancelled = False, pending = {}\<rparr>"

text \<open>\<^verbatim>\<open>std::map::find\<close>: the mapped value, or nothing for \<^verbatim>\<open>end()\<close>.\<close>

definition map_find :: "('k \<times> 'v) list \<Rightarrow> 'k \<Rightarrow> 'v option" where
  "map_find m k = map_of m k"

text \<open>\<^verbatim>\<open>m[k] = v\<close> on a \<^verbatim>\<open>std::map\<close>: overwrite the entry of \<open>k\<close>, or insert it in key order.\<close>

fun map_assign :: "'k::linorder \<Rightarrow> 'v \<Rightarrow> ('k \<times> 'v) list \<Rightarrow> ('k \<times> 'v) list" where
  "map_assign k v [] = [(k, v)]"
| "map_assign k v ((k', v') # m) =
     (if k = k' then (k, v) # m
      else if k < k' then (k, v) # (k', v') # m
      else (k', v') # map_assign k v m)"

text \<open>\<^verbatim>\<open>int Request::addBuffer(std::unique_ptr<Buffer> buffer)\<close>\<close>

definition addBuffer :: "heap \<Rightarrow> buffer_ptr \<Rightarrow> Request \<Rightarrow> int \<times> Request" where
  "addBuffer h buffer r =
     (let stream = buf_stream (h buffer) in
      if stream = None then (- EINVAL, r)
      else if map_find (bufferMap r) stream \<noteq> None then (- EEXIST, r)
      else (0, r\<lparr>bufferMap := map_assign stream buffer (bufferMap r)\<rparr>))"

text \<open>\<^verbatim>\<open>Buffer *Request::findBuffer(Stream *stream) const\<close>\<close>

definition findBuffer :: "Request \<Rightarrow> stream_ptr option \<Rightarrow> buffer_ptr option" where
  "findBuffer r stream =
     (case map_find (bufferMap r) stream of None \<Rightarrow> None | Some b \<Rightarrow> Some b)"

text \<open>
  Modelled from the spec: the inline accessor \<^verbatim>\<open>hasPendingBuffers()\<close> of request.h
  (absent), which request.cpp documents as true when the request has buffers pending
  for completion.
\<close>

definition hasPendingBuffers :: "Request \<Rightarrow> bool" where
  "hasPendingBuffers r = (pending r \<noteq> {})"

text \<open>The loop of \<^verbatim>\<open>prepare()\<close> over the pairs of \<^verbatim>\<open>bufferMap_\<close>.\<close>

fun prepare_loop ::
  "request_ptr \<Rightarrow> (stream_ptr option \<times> buffer_ptr) list \<Rightarrow> buffer_ptr set \<times> heap
     \<Rightarrow> buffer_ptr set \<times> heap" where
  "prepare_loop this [] (p, h) = (p, h)"
| "prepare_loop this ((s, buffer) # m) (p, h) =
     prepare_loop this m (insert buffer p, setRequest (Some this) buffer h)"

text \<open>\<^verbatim>\<open>int Request::prepare()\<close>, called on the request at address \<open>this\<close>.\<close>

definition prepare :: "request_ptr \<Rightarrow> Request \<times> heap \<Rightarrow> int \<times> Request \<times> heap" where
  "prepare this = (\<lambda>(r, h).
     if bufferMap r = [] then (- EINVAL, r, h)
     else (let (p, h') = prepare_loop this (bufferMap r) (pending r, h)
           in (0, r\<lparr>pending := p\<rparr>, h')))"

text \<open>
  Modelled from the spec: the \<^verbatim>\<open>ASSERT\<close> macro of log.h (absent), a fatal assertion:
  a false condition ends the program.
\<close>

datatype fatal = AssertionFailed

definition ASSERT :: "bool \<Rightarrow> fatal + unit" where
  "ASSERT c = (if c then Inr () else Inl AssertionFailed)"

text \<open>\<^verbatim>\<open>void Request::complete()\<close>\<close>

definition complete :: "Request \<Rightarrow> fatal + Request" where
  "complete r =
     (case ASSERT (\<not> hasPendingBuffers r) of
        Inl e \<Rightarrow> Inl e
      | Inr _ \<Rightarrow>
          Inr (r\<lparr>status := (if cancelled r then RequestCancelled else RequestComplete)\<rparr>))"

text \<open>\<^verbatim>\<open>std::set::erase(key)\<close>: the set without the key, and the number of elements removed.\<close>

definition set_erase :: "'a \<Rightarrow> 'a set \<Rightarrow> 'a set \<times> int" where
  "set_erase x s = (s - {x}, if x \<in> s then 1 else 0)"

text \<open>\<^verbatim>\<open>bool Request::completeBuffer(Buffer *buffer)\<close>\<close>

definition completeBuffer ::
  "buffer_ptr \<Rightarrow> Request \<times> heap \<Rightarrow> fatal + (bool \<times> Request \<times> heap)" where
  "completeBuffer buffer = (\<lambda>(r, h).
     let (p, ret) = set_erase buffer (pending r);
         r1 = r\<lparr>pending := p\<rparr>
     in case ASSERT (ret = 1) of
          Inl e \<Rightarrow> Inl e
        | Inr _ \<Rightarrow>
            (let h1 = setRequest None buffer h;
                 r2 = (if buf_status (h1 buffer) = BufferCancelled
                       then r1\<lparr>cancelled := True\<rparr> else r1)
             in Inr (\<not> hasPendingBuffers r2, r2, h1)))"

subsection \<open>Sequences of calls\<close>

text \<open>
  The calls that the camera and the pipeline handler make on one request, in sequence.
  A failed \<^verbatim>\<open>addBuffer\<close> or \<^verbatim>\<open>prepare\<close> returns its error code and the sequence goes on;
  a failed assertion ends it.
\<close>

fun addBuffers :: "heap \<Rightarrow> buffer_ptr list \<Rightarrow> Request \<Rightarrow> Request" where
  "addBuffers h [] r = r"
| "addBuffers h (b # bs) r = addBuffers h bs (snd (addBuffer h b r))"

text \<open>The bindings made by the calls of \<open>addBuffers\<close> that returned 0, in call order.\<close>

fun bound_by :: "heap \<Rightarrow> buffer_ptr list \<Rightarrow> Request \<Rightarrow> (stream_ptr option \<times> buffer_ptr) list" where
  "bound_by h [] r = []"
| "bound_by h (b # bs) r =
     (if fst (addBuffer h b r) = 0 then [(buf_stream (h b), b)] else [])
       @ bound_by h bs (snd (addBuffer h b r))"

fun completeBuffers :: "buffer_ptr list \<Rightarrow> Request \<times> heap \<Rightarrow> fatal + (Request \<times> heap)" where
  "completeBuffers [] s = Inr s"
| "completeBuffers (b # bs) s =
     (case completeBuffer b s of
        Inl e \<Rightarrow> Inl e
      | Inr (ret, s') \<Rightarrow> completeBuffers bs s')"

datatype call = AddBuffer buffer_ptr | Prepare | CompleteBuffer buffer_ptr | Complete

fun step :: "request_ptr \<Rightarrow> call \<Rightarrow> Request \<times> heap \<Rightarrow> fatal + (Request \<times> heap)" where
  "step this (AddBuffer b) (r, h) = Inr (snd (addBuffer h b r), h)"
| "step this Prepare (r, h) = Inr (snd (prepare this (r, h)))"
| "step this (CompleteBuffer b) (r, h) =
     (case completeBuffer b (r, h) of Inl e \<Rightarrow> Inl e | Inr (ret, s') \<Rightarrow> Inr s')"
| "step this Complete (r, h) =
     (case complete r of Inl e \<Rightarrow> Inl e | Inr r' \<Rightarrow> Inr (r', h))"

fun run :: "request_ptr \<Rightarrow> call list \<Rightarrow> Request \<times> heap \<Rightarrow> fatal + (Request \<times> heap)" where
  "run this [] s = Inr s"
| "run this (c # cs) s =
     (case step this c s of Inl e \<Rightarrow> Inl e | Inr s' \<Rightarrow> run this cs s')"

text \<open>
  The status of the request after each call of a sequence, up to the call that fails an
  assertion, if any.
\<close>

fun statuses :: "request_ptr \<Rightarrow> call list \<Rightarrow> Request \<times> heap \<Rightarrow> Status list" where
  "statuses this [] s = []"
| "statuses this (c # cs) s =
     (case step this c s of
        Inl e \<Rightarrow> []
      | Inr s' \<Rightarrow> status (fst s') # statuses this cs s')"

text \<open>
  Modelled from the spec: the lifecycle of a request, driven by the camera and the
  pipeline handler (camera.cpp and pipeline_handler.cpp are absent). The application
  adds buffers; at submission the request is prepared, and rejected if \<^verbatim>\<open>prepare()\<close>
  fails; a queued request is mutated only by buffer completions, is then completed, and
  is destroyed after its completion.
\<close>

definition lifecycle ::
  "request_ptr \<Rightarrow> heap \<Rightarrow> Request \<Rightarrow> buffer_ptr list \<Rightarrow> buffer_ptr list \<Rightarrow> call list" where
  "lifecycle this h r bs cs =
     map AddBuffer bs @ Prepare #
       (if fst (prepare this (addBuffers h bs r, h)) = 0
        then map CompleteBuffer cs @ [Complete] else [])"

text \<open>
  The status changes the data model allows: none, or from Pending to Complete or
  Cancelled; and a sequence of statuses, from a first one, that only makes such changes.
\<close>

definition pending_transition :: "Status \<Rightarrow> Status \<Rightarrow> bool" where
  "pending_transition a b =
     (a = b \<or> (a = RequestPending \<and> (b = RequestComplete \<or> b = RequestCancelled)))"

fun transitions_ok :: "Status \<Rightarrow> Status list \<Rightarrow> bool" where
  "transitions_ok a [] = True"
| "transitions_ok a (b # ts) = (pending_transition a b \<and> transitions_ok b ts)"

text \<open>
  Buffers for worked examples: buffer 1 on stream 1 and buffer 2 on stream 2 succeeded,
  buffer 3 on stream 3 was cancelled, buffer 4 is a second buffer on stream 1, and any
  other buffer references no stream.
\<close>

definition test_heap :: heap where
  "test_heap b =
     (if b = 1 then \<lparr>buf_stream = Some 1, buf_status = BufferSuccess, buf_request = None\<rparr>
      else if b = 2 then \<lparr>buf_stream = Some 2, buf_status = BufferSuccess, buf_request = None\<rparr>
      else if b = 3 then \<lparr>buf_stream = Some 3, buf_status = BufferCancelled, buf_request = None\<rparr>
      else if b = 4 then \<lparr>buf_stream = Some 1, buf_status = BufferSuccess, buf_request = None\<rparr>
      else \<lparr>buf_stream = None, buf_status = BufferSuccess, buf_request = None\<rparr>)"

section \<open>Message transport (IPCUnixSocket, exercised by test/ipc/unixsocket.cpp)\<close>

text \<open>
  \<^verbatim>\<open>IPCUnixSocket::Payload\<close> as the test uses it: a vector of bytes and a vector of file
  descriptors.
\<close>

type_synonym fd = int

record Payload =
  data :: "8 word list"
  fds :: "fd list"

text \<open>
  Modelled from the spec: the transport itself (ipc_unixsocket.cpp is absent). One
  direction of a connected channel carries the in-band bytes and, out of band, the
  descriptors, each in arrival order.
\<close>

record Wire =
  inband :: "8 word list"
  ancillary :: "fd list"

text \<open>Modelled from the spec: a channel on which nothing is in flight.\<close>

definition empty_wire :: Wire where
  "empty_wire = \<lparr>inband = [], ancillary = []\<rparr>"

text \<open>
  Modelled from the spec: a \<^verbatim>\<open>u32\<close> header field on the wire, four bytes in the byte
  order of the host, little-endian here, and its reading back from the head of the
  in-band bytes.
\<close>

definition put_u32 :: "32 word \<Rightarrow> 8 word list" where
  "put_u32 w = [ucast w, ucast (drop_bit 8 w), ucast (drop_bit 16 w), ucast (drop_bit 24 w)]"

fun get_u32 :: "8 word list \<Rightarrow> 32 word" where
  "get_u32 (b0 # b1 # b2 # b3 # bs) =
     ucast b0 OR push_bit 8 (ucast b1) OR push_bit 16 (ucast b2) OR push_bit 24 (ucast b3)"
| "get_u32 bs = 0"

text \<open>Modelled from the spec: the error of a malformed message.\<close>

datatype transport_error = Protocol

text \<open>
  Modelled from the spec: the in-band part of a message,
  \<^verbatim>\<open>[u32 payload_length][u32 descriptor_count][payload_length bytes]\<close>; its
  \<^verbatim>\<open>descriptor_count\<close> descriptors travel out of band. The spec defines no message
  whose sizes exceed the \<^verbatim>\<open>u32\<close> fields; a size is written to its field by the
  conversion of C++, and no property below concerns a larger message.
\<close>

definition frame :: "Payload \<Rightarrow> 8 word list" where
  "frame p = put_u32 (of_nat (length (data p))) @ put_u32 (of_nat (length (fds p))) @ data p"

text \<open>
  Modelled from the spec: \<^verbatim>\<open>send(payload)\<close> fails with Invalid (the test expects
  \<^verbatim>\<open>-EINVAL\<close>) if the payload is empty; otherwise it writes the header, the bytes and
  the descriptors.
\<close>

definition send :: "Payload \<Rightarrow> Wire \<Rightarrow> int \<times> Wire" where
  "send p w =
     (if data p = [] \<and> fds p = [] then (- EINVAL, w)
      else (0, w\<lparr>inband := inband w @ frame p, ancillary := ancillary w @ fds p\<rparr>))"

text \<open>
  Modelled from the spec: \<^verbatim>\<open>receive(payload*)\<close> parses exactly one framed message and
  fails with Protocol if the header is truncated or malformed: fewer than eight header
  bytes, a header announcing an empty message, or a header announcing more bytes or
  descriptors than have arrived.
\<close>

definition receive :: "Wire \<Rightarrow> transport_error + (Payload \<times> Wire)" where
  "receive w =
     (if length (inband w) < 8 then Inl Protocol
      else
        (let payload_length = unat (get_u32 (inband w));
             descriptor_count = unat (get_u32 (drop 4 (inband w)));
             body = drop 8 (inband w)
         in if payload_length = 0 \<and> descriptor_count = 0 then Inl Protocol
            else if length body < payload_length \<or> length (ancillary w) < descriptor_count
            then Inl Protocol
            else Inr (\<lparr>data = take payload_length body,
                       fds = take descriptor_count (ancillary w)\<rparr>,
                      w\<lparr>inband := drop payload_length body,
                        ancillary := drop descriptor_count (ancillary w)\<rparr>)))"

text \<open>Messages sent one after the other, and as many receives on the peer.\<close>

fun send_all :: "Payload list \<Rightarrow> Wire \<Rightarrow> int list \<times> Wire" where
  "send_all [] w = ([], w)"
| "send_all (p # ps) w =
     (let (ret, w') = send p w; (rets, w'') = send_all ps w' in (ret # rets, w''))"

fun receive_n :: "nat \<Rightarrow> Wire \<Rightarrow> transport_error + (Payload list \<times> Wire)" where
  "receive_n 0 w = Inr ([], w)"
| "receive_n (Suc n) w =
     (case receive w of
        Inl e \<Rightarrow> Inl e
      | Inr (p, w') \<Rightarrow>
          (case receive_n n w' of Inl e \<Rightarrow> Inl e | Inr (ps, w'') \<Rightarrow> Inr (p # ps, w'')))"

text \<open>What the \<^verbatim>\<open>u32\<close> header fields can announce.\<close>

definition fits_header :: "Payload \<Rightarrow> bool" where
  "fits_header p = (length (data p) < 2 ^ 32 \<and> length (fds p) < 2 ^ 32)"

definition nonempty :: "Payload \<Rightarrow> bool" where
  "nonempty p = (data p \<noteq> [] \<or> fds p \<noteq> [])"

text \<open>\<^verbatim>\<open>UnixSocketTest::testEmptyFail\<close>, on the wire towards the slave.\<close>

definition testEmptyFail :: "Wire \<Rightarrow> int" where
  "testEmptyFail w = (if fst (send \<lparr>data = [], fds = []\<rparr> w) \<noteq> - EINVAL then 1 else 0)"

text \<open>The command tags of the test and the messages of \<^verbatim>\<open>testReverse\<close> and \<^verbatim>\<open>testFdOrder\<close>.\<close>

definition CMD_REVERSE :: "8 word" where "CMD_REVERSE = 1"
definition CMD_JOIN :: "8 word" where "CMD_JOIN = 4"

definition testReverse_message :: Payload where
  "testReverse_message = \<lparr>data = [CMD_REVERSE, 1, 2, 3, 4, 5], fds = []\<rparr>"

definition testFdOrder_message :: "fd \<Rightarrow> fd \<Rightarrow> Payload" where
  "testFdOrder_message fd0 fd1 = \<lparr>data = [CMD_JOIN], fds = [fd0, fd1]\<rparr>"

section \<open>Process supervision (Process, exercised by test/log/log_process.cpp)\<close>

text \<open>
  Modelled from the spec: the exit status that the \<^verbatim>\<open>finished\<close> event carries
  (process.h is absent). The event has the arguments that the listener of the test
  takes: the exit status and the exit code, which for an exit by signal is the signal.
\<close>

datatype ExitStatus = NormalExit | SignalExit

text \<open>
  Modelled from the spec: the supervised process (process.cpp is absent), with its
  process id and its execution state, one of NotStarted, Running, ExitedNormally(code)
  and ExitedBySignal(signal).
\<close>

datatype exec_state = NotStarted | Running | ExitedNormally int | ExitedBySignal int

type_synonym pid = nat

record Process =
  proc_pid :: "pid option"
  proc_state :: exec_state

text \<open>Modelled from the spec: a process that was created and not started.\<close>

definition Process_init :: Process where
  "Process_init = \<lparr>proc_pid = None, proc_state = NotStarted\<rparr>"

text \<open>Modelled from the spec: the error of a child image that cannot be launched.\<close>

datatype start_error = Exec

text \<open>
  Modelled from the spec: \<^verbatim>\<open>start(executablePath, args)\<close> forks and execs, and fails with
  Exec if the child image cannot be launched. Whether the image can be launched and the
  process id of the child are given by the system.
\<close>

definition start :: "bool \<Rightarrow> pid \<Rightarrow> Process \<Rightarrow> start_error option \<times> Process" where
  "start launchable child p =
     (if launchable then (None, p\<lparr>proc_pid := Some child, proc_state := Running\<rparr>)
      else (Some Exec, p))"

text \<open>
  Modelled from the spec: what the system reports of a terminated child, a normal exit
  with its code or an exit by a signal.
\<close>

datatype child_exit = ChildExited int | ChildSignalled int

text \<open>
  Modelled from the spec: the reaper, on the notification that the child \<open>child\<close> has
  terminated, moves a running process with that process id to its exited state and
  raises its \<^verbatim>\<open>finished\<close> event.
\<close>

definition reap :: "pid \<Rightarrow> child_exit \<Rightarrow> Process \<Rightarrow> (ExitStatus \<times> int) list \<times> Process" where
  "reap child st p =
     (if proc_state p = Running \<and> proc_pid p = Some child then
        (case st of
           ChildExited code \<Rightarrow> ([(NormalExit, code)], p\<lparr>proc_state := ExitedNormally code\<rparr>)
         | ChildSignalled sig \<Rightarrow> ([(SignalExit, sig)], p\<lparr>proc_state := ExitedBySignal sig\<rparr>))
      else ([], p))"

text \<open>
  Modelled from the spec: \<^verbatim>\<open>kill()\<close> requests termination and is safe on a process that
  has exited; the termination it causes arrives as a notification of the system.
\<close>

definition kill :: "Process \<Rightarrow> Process" where
  "kill p = p"

datatype activity = Terminated pid child_exit | Kill

text \<open>The \<^verbatim>\<open>finished\<close> events raised over a sequence of notifications and kill requests.\<close>

fun supervise :: "activity list \<Rightarrow> Process \<Rightarrow> (ExitStatus \<times> int) list \<times> Process" where
  "supervise [] p = ([], p)"
| "supervise (Terminated child st # as) p =
     (let (es, p') = reap child st p; (es', p'') = supervise as p' in (es @ es', p''))"
| "supervise (Kill # as) p = supervise as (kill p)"

text \<open>
  \<^verbatim>\<open>LogProcessTest\<close>: the members its listener \<^verbatim>\<open>procFinished\<close> writes, and the listener run
  on every event raised.
\<close>

record LogProcessTest =
  exitStatus :: "ExitStatus option"
  exitCode :: "int option"

definition procFinished :: "ExitStatus \<Rightarrow> int \<Rightarrow> LogProcessTest \<Rightarrow> LogProcessTest" where
  "procFinished st code t = t\<lparr>exitStatus := Some st, exitCode := Some code\<rparr>"

fun dispatch :: "(ExitStatus \<times> int) list \<Rightarrow> LogProcessTest \<Rightarrow> LogProcessTest" where
  "dispatch [] t = t"
| "dispatch ((st, code) # es) t = dispatch es (procFinished st code t)"

section \<open>Properties of the request\<close>

subsection \<open>The map and the loops\<close>

lemma map_of_map_assign: "map_of (map_assign k v m) = (map_of m)(k \<mapsto> v)"
  by (induction m) (auto simp add: fun_eq_iff)

lemma prepare_loop_eq:
  "prepare_loop this m (p, h) =
     (p \<union> snd ` set m,
      \<lambda>b. if b \<in> snd ` set m then (h b)\<lparr>buf_request := Some this\<rparr> else h b)"
proof (induction m arbitrary: p h)
  case Nil
  show ?case by simp
next
  case (Cons x m)
  obtain s b where x: "x = (s, b)" by (cases x)
  show ?case
    unfolding x by (simp add: Cons.IH setRequest_def) (auto simp add: fun_eq_iff)
qed

lemma setRequest_status [simp]: "buf_status (setRequest q b h x) = buf_status (h x)"
  by (simp add: setRequest_def)

lemma setRequest_stream [simp]: "buf_stream (setRequest q b h x) = buf_stream (h x)"
  by (simp add: setRequest_def)

subsection \<open>Single calls\<close>

lemma completeBuffer_in:
  "buffer \<in> pending r \<Longrightarrow>
   completeBuffer buffer (r, h) =
     Inr (pending r - {buffer} = {},
          r\<lparr>pending := pending r - {buffer},
            cancelled := cancelled r \<or> buf_status (h buffer) = BufferCancelled\<rparr>,
          setRequest None buffer h)"
  by (auto simp add: completeBuffer_def set_erase_def ASSERT_def setRequest_def
      hasPendingBuffers_def Let_def)

lemma completeBuffer_notin:
  "buffer \<notin> pending r \<Longrightarrow> completeBuffer buffer (r, h) = Inl AssertionFailed"
  by (simp add: completeBuffer_def set_erase_def ASSERT_def)

lemma complete_eq:
  "pending r = {} \<Longrightarrow>
   complete r = Inr (r\<lparr>status := (if cancelled r then RequestCancelled else RequestComplete)\<rparr>)"
  by (simp add: complete_def ASSERT_def hasPendingBuffers_def)

lemma complete_fails: "pending r \<noteq> {} \<Longrightarrow> complete r = Inl AssertionFailed"
  by (simp add: complete_def ASSERT_def hasPendingBuffers_def)

lemma completeBuffers_cancelled:
  "completeBuffers bs (r, h) = Inr (r', h') \<Longrightarrow>
   cancelled r' = (cancelled r \<or> (\<exists>b \<in> set bs. buf_status (h b) = BufferCancelled))"
proof (induction bs arbitrary: r h)
  case Nil
  then show ?case by simp
next
  case (Cons b bs)
  show ?case
  proof (cases "b \<in> pending r")
    case True
    from Cons.prems have "completeBuffers bs (r\<lparr>pending := pending r - {b},
            cancelled := cancelled r \<or> buf_status (h b) = BufferCancelled\<rparr>,
          setRequest None b h) = Inr (r', h')"
      by (simp add: completeBuffer_in [OF True])
    from Cons.IH [OF this] show ?thesis by auto
  next
    case False
    with Cons.prems show ?thesis by (simp add: completeBuffer_notin)
  qed
qed

lemma completeBuffers_pending:
  "completeBuffers bs (r, h) = Inr (r', h') \<Longrightarrow> pending r' = pending r - set bs"
proof (induction bs arbitrary: r h)
  case Nil
  then show ?case by simp
next
  case (Cons b bs)
  show ?case
  proof (cases "b \<in> pending r")
    case True
    from Cons.prems have "completeBuffers bs (r\<lparr>pending := pending r - {b},
            cancelled := cancelled r \<or> buf_status (h b) = BufferCancelled\<rparr>,
          setRequest None b h) = Inr (r', h')"
      by (simp add: completeBuffer_in [OF True])
    from Cons.IH [OF this] show ?thesis by auto
  next
    case False
    with Cons.prems show ?thesis by (simp add: completeBuffer_notin)
  qed
qed

lemma completeBuffers_append:
  "completeBuffers (as @ bs) s =
     (case completeBuffers as s of Inl e \<Rightarrow> Inl e | Inr s' \<Rightarrow> completeBuffers bs s')"
  by (induction as arbitrary: s) (auto split: sum.splits)

lemma completeBuffers_again:
  "completeBuffers (b # bs @ [b]) (r, h) = Inl AssertionFailed"
proof (cases "completeBuffers (b # bs) (r, h)")
  case (Inl e)
  then have "completeBuffers ((b # bs) @ [b]) (r, h) = Inl e"
    by (simp only: completeBuffers_append sum.case)
  then show ?thesis by (cases e) simp
next
  case (Inr s')
  obtain r' h' where s': "s' = (r', h')" by (cases s')
  from Inr have "pending r' = pending r - set (b # bs)"
    unfolding s' by (rule completeBuffers_pending)
  then have "b \<notin> pending r'" by simp
  then have "completeBuffers [b] (r', h') = Inl AssertionFailed"
    by (simp add: completeBuffer_notin)
  with Inr have "completeBuffers ((b # bs) @ [b]) (r, h) = Inl AssertionFailed"
    unfolding s' by (simp only: completeBuffers_append sum.case)
  then show ?thesis by simp
qed

lemma addBuffer_cases:
  "addBuffer h b r =
     (case buf_stream (h b) of
        None \<Rightarrow> (- EINVAL, r)
      | Some s \<Rightarrow>
          (case map_of (bufferMap r) (Some s) of
             Some b' \<Rightarrow> (- EEXIST, r)
           | None \<Rightarrow> (0, r\<lparr>bufferMap := map_assign (Some s) b (bufferMap r)\<rparr>)))"
  by (simp add: addBuffer_def map_find_def split: option.splits)

lemma addBuffer_map_of:
  "map_of (bufferMap (snd (addBuffer h b r))) =
     (if fst (addBuffer h b r) = 0 then (map_of (bufferMap r))(buf_stream (h b) \<mapsto> b)
      else map_of (bufferMap r))"
  by (simp add: addBuffer_cases map_of_map_assign EINVAL_def EEXIST_def split: option.splits)

lemma addBuffer_ok_fresh:
  "fst (addBuffer h b r) = 0 \<Longrightarrow> map_of (bufferMap r) (buf_stream (h b)) = None"
  by (simp add: addBuffer_cases EINVAL_def EEXIST_def split: option.splits)

lemma bound_by_fresh:
  "s \<in> fst ` set (bound_by h bs r) \<Longrightarrow> map_of (bufferMap r) s = None"
proof (induction bs arbitrary: r)
  case Nil
  then show ?case by simp
next
  case (Cons b bs)
  from Cons.prems consider
      (head) "fst (addBuffer h b r) = 0" "s = buf_stream (h b)"
    | (tail) "s \<in> fst ` set (bound_by h bs (snd (addBuffer h b r)))"
    by (auto split: if_splits)
  then show ?case
  proof cases
    case head
    then show ?thesis by (simp add: addBuffer_ok_fresh)
  next
    case tail
    from Cons.IH [OF tail] show ?thesis
      by (simp add: addBuffer_map_of split: if_splits)
  qed
qed

lemma bound_by_distinct: "distinct (map fst (bound_by h bs r))"
proof (induction bs arbitrary: r)
  case Nil
  show ?case by simp
next
  case (Cons b bs)
  show ?case
  proof (cases "fst (addBuffer h b r) = 0")
    case True
    have "buf_stream (h b) \<notin> fst ` set (bound_by h bs (snd (addBuffer h b r)))"
    proof
      assume "buf_stream (h b) \<in> fst ` set (bound_by h bs (snd (addBuffer h b r)))"
      from bound_by_fresh [OF this] True show False
        by (simp add: addBuffer_map_of)
    qed
    with True Cons.IH show ?thesis by simp
  next
    case False
    with Cons.IH show ?thesis by simp
  qed
qed

lemma addBuffers_map_of:
  "map_of (bufferMap (addBuffers h bs r)) s =
     (case map_of (bufferMap r) s of
        Some b \<Rightarrow> Some b
      | None \<Rightarrow> map_of (bound_by h bs r) s)"
proof (induction bs arbitrary: r)
  case Nil
  show ?case by (simp split: option.splits)
next
  case (Cons b bs)
  show ?case
    by (simp add: Cons.IH addBuffer_map_of addBuffer_ok_fresh split: option.splits)
qed

subsection \<open>Invariants of call sequences\<close>

lemma step_keeps_status:
  assumes "step this x (r, h) = Inr (r', h')" and "x \<noteq> Complete"
  shows "status r' = status r"
proof (cases x)
  case (AddBuffer b)
  with assms show ?thesis
    by (auto simp add: addBuffer_cases split: option.splits)
next
  case Prepare
  with assms show ?thesis
    by (auto simp add: prepare_def prepare_loop_eq split: if_splits)
next
  case (CompleteBuffer b)
  with assms show ?thesis
    by (cases "b \<in> pending r") (auto simp add: completeBuffer_in completeBuffer_notin)
next
  case Complete
  with assms show ?thesis by simp
qed

lemma run_AddBuffers:
  "run this (map AddBuffer bs) (r, h) = Inr (addBuffers h bs r, h)"
  by (induction bs arbitrary: r) simp_all

lemma statuses_keep:
  "Complete \<notin> set cs \<Longrightarrow> set (statuses this cs (r, h)) \<subseteq> {status r}"
proof (induction cs arbitrary: r h)
  case Nil
  show ?case by simp
next
  case (Cons x cs)
  from Cons.prems have x: "x \<noteq> Complete" and cs: "Complete \<notin> set cs" by auto
  show ?case
  proof (cases "step this x (r, h)")
    case (Inl e)
    then show ?thesis by simp
  next
    case (Inr s')
    obtain r' h' where s': "s' = (r', h')" by (cases s')
    from Inr have "status r' = status r"
      unfolding s' using x by (rule step_keeps_status)
    with Cons.IH [OF cs, of r' h'] Inr show ?thesis
      unfolding s' by simp
  qed
qed

lemma statuses_butlast:
  "set (butlast (statuses this (pre @ [x]) s)) \<subseteq> set (statuses this pre s)"
proof (induction pre arbitrary: s)
  case Nil
  show ?case by (simp split: sum.splits)
next
  case (Cons c pre)
  show ?case
  proof (cases "step this c s")
    case (Inl e)
    then show ?thesis by simp
  next
    case (Inr s')
    with Cons.IH [of s'] show ?thesis by auto
  qed
qed

lemma transitions_ok_pending:
  assumes "Complete \<notin> set pre" and "status r = RequestPending"
  shows "transitions_ok RequestPending (statuses this pre (r, h))"
    and "transitions_ok RequestPending (statuses this (pre @ [Complete]) (r, h))"
  using assms
proof (induction pre arbitrary: r h)
  case Nil
  {
    case 1
    show ?case by simp
  next
    case 2
    then show ?case
      by (cases "pending r = {}")
        (simp_all add: complete_eq complete_fails pending_transition_def)
  }
next
  case (Cons x pre)
  {
    case 1
    then have x: "x \<noteq> Complete" and pre: "Complete \<notin> set pre" by auto
    show ?case
    proof (cases "step this x (r, h)")
      case (Inl e)
      then show ?thesis by simp
    next
      case (Inr s')
      obtain r' h' where s': "s' = (r', h')" by (cases s')
      from Inr have "status r' = status r"
        unfolding s' using x by (rule step_keeps_status)
      with 1 have "status r' = RequestPending" by simp
      from Cons.IH(1) [OF pre this, of h'] Inr \<open>status r' = RequestPending\<close>
      show ?thesis unfolding s' by (simp add: pending_transition_def)
    qed
  next
    case 2
    then have x: "x \<noteq> Complete" and pre: "Complete \<notin> set pre" by auto
    show ?case
    proof (cases "step this x (r, h)")
      case (Inl e)
      then show ?thesis by simp
    next
      case (Inr s')
      obtain r' h' where s': "s' = (r', h')" by (cases s')
      from Inr have "status r' = status r"
        unfolding s' using x by (rule step_keeps_status)
      with 2 have "status r' = RequestPending" by simp
      from Cons.IH(2) [OF pre this, of h'] Inr \<open>status r' = RequestPending\<close>
      show ?thesis unfolding s' by (simp add: pending_transition_def)
    qed
  }
qed

subsection \<open>The claims\<close>

text \<open>
  C1. For a buffer in the outstanding set, \<^verbatim>\<open>completeBuffer\<close> removes it from the set,
  raises the cancelled flag exactly when the buffer's status is Cancelled (a raised flag
  stays raised), touches nothing else of the request, and returns whether the
  outstanding set is now empty.
\<close>

theorem completeBuffer_pending:
  assumes "buffer \<in> pending r"
  shows "\<exists>ret r' h'. completeBuffer buffer (r, h) = Inr (ret, r', h')
           \<and> pending r' = pending r - {buffer}
           \<and> cancelled r' = (cancelled r \<or> buf_status (h buffer) = BufferCancelled)
           \<and> ret = (pending r' = {})
           \<and> status r' = status r \<and> bufferMap r' = bufferMap r"
  using assms
  by (auto simp add: completeBuffer_def set_erase_def ASSERT_def setRequest_def
      hasPendingBuffers_def Let_def)

theorem completeBuffer_pending_witness:
  "\<exists>ret r' h'. completeBuffer 7 (Request_init 0 0\<lparr>pending := {7, 8}\<rparr>,
       \<lambda>_. \<lparr>buf_stream = Some 1, buf_status = BufferCancelled, buf_request = None\<rparr>)
       = Inr (ret, r', h')
     \<and> pending r' = {8} \<and> cancelled r' \<and> \<not> ret"
  using completeBuffer_pending [of 7 "Request_init 0 0\<lparr>pending := {7, 8}\<rparr>"
      "\<lambda>_. \<lparr>buf_stream = Some 1, buf_status = BufferCancelled, buf_request = None\<rparr>"]
  by (auto simp add: Request_init_def)

text \<open>
  C2. With an empty outstanding set, \<^verbatim>\<open>complete()\<close> sets the status to Cancelled if the
  cancelled flag is raised and to Complete otherwise, and changes nothing else. Hence,
  when the request was reached by completing buffers of which at least one had the
  status Cancelled, the status after \<^verbatim>\<open>complete()\<close> is Cancelled, whatever the status of
  the other buffers.
\<close>

theorem complete_status:
  assumes "pending r = {}"
  shows "(\<exists>r'. complete r = Inr r'
            \<and> status r' = (if cancelled r then RequestCancelled else RequestComplete)
            \<and> r' = r\<lparr>status := status r'\<rparr>)
       \<and> (\<forall>bs r0 h0 h. completeBuffers bs (r0, h0) = Inr (r, h)
             \<and> (\<exists>b \<in> set bs. buf_status (h0 b) = BufferCancelled)
            \<longrightarrow> (\<exists>r'. complete r = Inr r' \<and> status r' = RequestCancelled))"
  using assms by (auto simp add: complete_eq dest: completeBuffers_cancelled)

theorem complete_status_witness:
  "completeBuffers [1, 3, 2]
      (\<lparr>camera = 0, cookie = 0, bufferMap = [(Some 1, 1), (Some 2, 2), (Some 3, 3)],
        status = RequestPending, cancelled = False, pending = {1, 2, 3}\<rparr>, test_heap)
    = Inr (\<lparr>camera = 0, cookie = 0, bufferMap = [(Some 1, 1), (Some 2, 2), (Some 3, 3)],
            status = RequestPending, cancelled = True, pending = {}\<rparr>,
           setRequest None 2 (setRequest None 3 (setRequest None 1 test_heap)))
   \<and> buf_status (test_heap 1) = BufferSuccess \<and> buf_status (test_heap 2) = BufferSuccess
   \<and> buf_status (test_heap 3) = BufferCancelled
   \<and> complete \<lparr>camera = 0, cookie = 0, bufferMap = [(Some 1, 1), (Some 2, 2), (Some 3, 3)],
            status = RequestPending, cancelled = True, pending = {}\<rparr>
      = Inr \<lparr>camera = 0, cookie = 0, bufferMap = [(Some 1, 1), (Some 2, 2), (Some 3, 3)],
            status = RequestCancelled, cancelled = True, pending = {}\<rparr>"
  using complete_status [of "\<lparr>camera = 0, cookie = 0,
      bufferMap = [(Some 1, 1), (Some 2, 2), (Some 3, 3)],
      status = RequestPending, cancelled = True, pending = {}\<rparr>"]
  by (auto simp add: completeBuffer_in test_heap_def)

text \<open>
  C3. \<^verbatim>\<open>addBuffer\<close> returns \<^verbatim>\<open>-EINVAL\<close> exactly when the buffer references no stream,
  \<^verbatim>\<open>-EEXIST\<close> exactly when the buffer's stream already has a buffer in the request, and 0
  otherwise, in which case the buffer is the one found for its stream. On either
  failure the request is unchanged, and the outstanding set is never touched.
\<close>

theorem addBuffer_result:
  "(fst (addBuffer h b r) = - EINVAL \<longleftrightarrow> buf_stream (h b) = None)
   \<and> (fst (addBuffer h b r) = - EEXIST \<longleftrightarrow>
        (\<exists>s. buf_stream (h b) = Some s \<and> findBuffer r (Some s) \<noteq> None))
   \<and> (fst (addBuffer h b r) = 0 \<longleftrightarrow>
        (\<exists>s. buf_stream (h b) = Some s \<and> findBuffer r (Some s) = None))
   \<and> (fst (addBuffer h b r) = 0 \<longrightarrow>
        findBuffer (snd (addBuffer h b r)) (buf_stream (h b)) = Some b
        \<and> pending (snd (addBuffer h b r)) = pending r)
   \<and> (fst (addBuffer h b r) \<noteq> 0 \<longrightarrow> snd (addBuffer h b r) = r)"
proof (cases "buf_stream (h b)")
  case None
  then show ?thesis
    by (simp add: addBuffer_def EINVAL_def EEXIST_def)
next
  case (Some s)
  show ?thesis
  proof (cases "map_of (bufferMap r) (Some s)")
    case None
    with Some show ?thesis
      by (simp add: addBuffer_def findBuffer_def map_find_def map_of_map_assign
          EINVAL_def EEXIST_def)
  next
    case (Some b')
    with \<open>buf_stream (h b) = Some s\<close> show ?thesis
      by (simp add: addBuffer_def findBuffer_def map_find_def EINVAL_def EEXIST_def)
  qed
qed

theorem addBuffer_result_witness:
  "addBuffer test_heap 5 (Request_init 0 0) = (- EINVAL, Request_init 0 0)
   \<and> addBuffer test_heap 4 (Request_init 0 0\<lparr>bufferMap := [(Some 1, 1)]\<rparr>)
       = (- EEXIST, Request_init 0 0\<lparr>bufferMap := [(Some 1, 1)]\<rparr>)
   \<and> addBuffer test_heap 2 (Request_init 0 0\<lparr>bufferMap := [(Some 1, 1)]\<rparr>)
       = (0, Request_init 0 0\<lparr>bufferMap := [(Some 1, 1), (Some 2, 2)]\<rparr>)
   \<and> findBuffer (Request_init 0 0\<lparr>bufferMap := [(Some 1, 1), (Some 2, 2)]\<rparr>) (Some 2) = Some 2"
  using addBuffer_result [of test_heap 5 "Request_init 0 0"]
    addBuffer_result [of test_heap 4 "Request_init 0 0\<lparr>bufferMap := [(Some 1, 1)]\<rparr>"]
    addBuffer_result [of test_heap 2 "Request_init 0 0\<lparr>bufferMap := [(Some 1, 1)]\<rparr>"]
  by (simp add: addBuffer_def findBuffer_def map_find_def test_heap_def Request_init_def
      EINVAL_def EEXIST_def)

text \<open>
  C4. \<^verbatim>\<open>prepare()\<close> returns \<^verbatim>\<open>-EINVAL\<close> exactly when no buffer is bound, and then leaves
  the request and the buffers as they were, so an empty outstanding set stays empty.
  Otherwise it returns 0, adds every bound buffer to the outstanding set and records the
  request in every bound buffer, and in no other.
\<close>

theorem prepare_result:
  "(fst (prepare this (r, h)) = - EINVAL \<longleftrightarrow> bufferMap r = [])
   \<and> (bufferMap r = [] \<longrightarrow>
        snd (prepare this (r, h)) = (r, h)
        \<and> (pending r = {} \<longrightarrow> pending (fst (snd (prepare this (r, h)))) = {}))
   \<and> (bufferMap r \<noteq> [] \<longrightarrow>
        (\<exists>r' h'. prepare this (r, h) = (0, r', h')
           \<and> pending r' = pending r \<union> snd ` set (bufferMap r)
           \<and> r' = r\<lparr>pending := pending r'\<rparr>
           \<and> (\<forall>b. h' b = (if b \<in> snd ` set (bufferMap r)
                           then (h b)\<lparr>buf_request := Some this\<rparr> else h b))))"
  by (simp add: prepare_def prepare_loop_eq EINVAL_def)

theorem prepare_result_witness:
  "prepare 9 (Request_init 0 0, test_heap) = (- EINVAL, Request_init 0 0, test_heap)
   \<and> pending (Request_init 0 0) = {}
   \<and> fst (prepare 9 (Request_init 0 0\<lparr>bufferMap := [(Some 1, 1), (Some 3, 3)]\<rparr>, test_heap)) = 0
   \<and> pending (fst (snd (prepare 9
        (Request_init 0 0\<lparr>bufferMap := [(Some 1, 1), (Some 3, 3)]\<rparr>, test_heap)))) = {1, 3}
   \<and> buf_request (snd (snd (prepare 9
        (Request_init 0 0\<lparr>bufferMap := [(Some 1, 1), (Some 3, 3)]\<rparr>, test_heap))) 3) = Some 9
   \<and> buf_request (snd (snd (prepare 9
        (Request_init 0 0\<lparr>bufferMap := [(Some 1, 1), (Some 3, 3)]\<rparr>, test_heap))) 2) = None"
  using prepare_result [of 9 "Request_init 0 0" test_heap]
    prepare_result [of 9 "Request_init 0 0\<lparr>bufferMap := [(Some 1, 1), (Some 3, 3)]\<rparr>" test_heap]
  by (auto simp add: Request_init_def test_heap_def EINVAL_def prod_eq_iff)

text \<open>
  C5. Over the lifecycle of a request (buffers are added, the request is prepared at
  submission and rejected if that fails, its buffers are completed and it is then
  completed), the status only changes from Pending to Complete or from Pending to
  Cancelled and is never reversed: it is Pending up to the last call. A request with no
  bound buffer has an empty outstanding set and fails \<^verbatim>\<open>prepare()\<close> with \<^verbatim>\<open>-EINVAL\<close>,
  unchanged, and its status stays Pending.
\<close>

theorem lifecycle_status:
  "transitions_ok RequestPending
     (statuses this (lifecycle this h (Request_init c k) bs cs) (Request_init c k, h))
   \<and> set (butlast
          (statuses this (lifecycle this h (Request_init c k) bs cs) (Request_init c k, h)))
       \<subseteq> {RequestPending}
   \<and> run this (map AddBuffer bs) (Request_init c k, h)
       = Inr (addBuffers h bs (Request_init c k), h)
   \<and> (bufferMap (addBuffers h bs (Request_init c k)) = [] \<longrightarrow>
        prepare this (addBuffers h bs (Request_init c k), h)
          = (- EINVAL, addBuffers h bs (Request_init c k), h)
        \<and> pending (addBuffers h bs (Request_init c k)) = {}
        \<and> set (statuses this (lifecycle this h (Request_init c k) bs cs) (Request_init c k, h))
            \<subseteq> {RequestPending})"
proof -
  let ?r0 = "Request_init c k"
  let ?pre = "map AddBuffer bs @ Prepare # map CompleteBuffer cs"
  have init: "status ?r0 = RequestPending"
    by (simp add: Request_init_def)
  have no1: "Complete \<notin> set (map AddBuffer bs @ [Prepare])" by auto
  have no2: "Complete \<notin> set ?pre" by auto
  have ok: "transitions_ok RequestPending (statuses this (lifecycle this h ?r0 bs cs) (?r0, h))"
  proof (cases "fst (prepare this (addBuffers h bs ?r0, h)) = 0")
    case True
    then have "lifecycle this h ?r0 bs cs = ?pre @ [Complete]"
      by (simp add: lifecycle_def)
    with transitions_ok_pending(2) [OF no2 init] show ?thesis by simp
  next
    case False
    then have "lifecycle this h ?r0 bs cs = map AddBuffer bs @ [Prepare]"
      by (simp add: lifecycle_def)
    with transitions_ok_pending(1) [OF no1 init] show ?thesis by simp
  qed
  have before: "set (butlast (statuses this (lifecycle this h ?r0 bs cs) (?r0, h)))
      \<subseteq> {RequestPending}"
  proof (cases "fst (prepare this (addBuffers h bs ?r0, h)) = 0")
    case True
    then have "lifecycle this h ?r0 bs cs = ?pre @ [Complete]"
      by (simp add: lifecycle_def)
    with statuses_butlast [of this ?pre Complete "(?r0, h)"]
      statuses_keep [OF no2, of this ?r0 h] init
    show ?thesis by auto
  next
    case False
    then have "lifecycle this h ?r0 bs cs = map AddBuffer bs @ [Prepare]"
      by (simp add: lifecycle_def)
    with statuses_keep [OF no1, of this ?r0 h] init show ?thesis
      by (auto dest: in_set_butlastD)
  qed
  have pend: "pending (addBuffers h bs r) = pending r" for r
    by (induction bs arbitrary: r) (simp_all add: addBuffer_cases split: option.splits)
  have empty: "prepare this (addBuffers h bs ?r0, h) = (- EINVAL, addBuffers h bs ?r0, h)
      \<and> pending (addBuffers h bs ?r0) = {}
      \<and> set (statuses this (lifecycle this h ?r0 bs cs) (?r0, h)) \<subseteq> {RequestPending}"
    if e: "bufferMap (addBuffers h bs ?r0) = []"
  proof -
    from e have rej: "prepare this (addBuffers h bs ?r0, h) = (- EINVAL, addBuffers h bs ?r0, h)"
      by (simp add: prepare_def)
    then have "lifecycle this h ?r0 bs cs = map AddBuffer bs @ [Prepare]"
      by (simp add: lifecycle_def EINVAL_def)
    with statuses_keep [OF no1, of this ?r0 h] init
    have "set (statuses this (lifecycle this h ?r0 bs cs) (?r0, h)) \<subseteq> {RequestPending}"
      by simp
    moreover have "pending (addBuffers h bs ?r0) = {}"
      by (simp add: pend) (simp add: Request_init_def)
    ultimately show ?thesis using rej by simp
  qed
  from ok before empty show ?thesis
    by (simp add: run_AddBuffers)
qed

theorem lifecycle_status_witness:
  "statuses 9 (lifecycle 9 test_heap (Request_init 0 0) [1, 4, 3] [3, 1])
      (Request_init 0 0, test_heap)
     = [RequestPending, RequestPending, RequestPending, RequestPending, RequestPending,
        RequestPending, RequestCancelled]
   \<and> statuses 9 (lifecycle 9 test_heap (Request_init 0 0) [1, 2] [2, 1])
      (Request_init 0 0, test_heap)
     = [RequestPending, RequestPending, RequestPending, RequestPending, RequestPending,
        RequestComplete]
   \<and> bufferMap (addBuffers test_heap [5] (Request_init 0 0)) = []
   \<and> fst (prepare 9 (addBuffers test_heap [5] (Request_init 0 0), test_heap)) = - EINVAL
   \<and> statuses 9 (lifecycle 9 test_heap (Request_init 0 0) [5] [5])
      (Request_init 0 0, test_heap)
     = [RequestPending, RequestPending]"
  using lifecycle_status [of 9 test_heap 0 0 "[1, 4, 3]" "[3, 1]"]
    lifecycle_status [of 9 test_heap 0 0 "[1, 2]" "[2, 1]"]
    lifecycle_status [of 9 test_heap 0 0 "[5]" "[5]"]
  by (simp add: lifecycle_def prepare_def addBuffer_cases test_heap_def Request_init_def
      completeBuffer_in complete_eq setRequest_def EINVAL_def EEXIST_def)

text \<open>
  C6. \<^verbatim>\<open>completeBuffer\<close> on a buffer of the outstanding set passes the assertion on the
  erase count; on a buffer that is not in the set the assertion fails. So a second call
  for the same buffer fails the assertion, right after the first one and also after any
  other buffers were completed in between.
\<close>

theorem completeBuffer_twice:
  "(b \<in> pending r \<longrightarrow> (\<exists>x. completeBuffer b (r, h) = Inr x))
   \<and> (b \<notin> pending r \<longrightarrow> completeBuffer b (r, h) = Inl AssertionFailed)
   \<and> (\<forall>ret r' h'. completeBuffer b (r, h) = Inr (ret, r', h')
        \<longrightarrow> completeBuffer b (r', h') = Inl AssertionFailed)
   \<and> (\<forall>bs. completeBuffers (b # bs @ [b]) (r, h) = Inl AssertionFailed)"
proof (intro conjI impI allI)
  assume "b \<in> pending r"
  then show "\<exists>x. completeBuffer b (r, h) = Inr x" by (simp add: completeBuffer_in)
next
  assume "b \<notin> pending r"
  then show "completeBuffer b (r, h) = Inl AssertionFailed" by (rule completeBuffer_notin)
next
  fix ret r' h'
  assume ok: "completeBuffer b (r, h) = Inr (ret, r', h')"
  have "b \<in> pending r"
  proof (rule ccontr)
    assume "b \<notin> pending r"
    with ok show False by (simp add: completeBuffer_notin)
  qed
  with ok have "b \<notin> pending r'" by (auto simp add: completeBuffer_in)
  then show "completeBuffer b (r', h') = Inl AssertionFailed" by (rule completeBuffer_notin)
next
  fix bs
  show "completeBuffers (b # bs @ [b]) (r, h) = Inl AssertionFailed"
    by (rule completeBuffers_again)
qed

theorem completeBuffer_twice_witness:
  "completeBuffer 1 (Request_init 0 0\<lparr>pending := {1, 2}\<rparr>, test_heap)
     = Inr (False, Request_init 0 0\<lparr>pending := {2}\<rparr>, setRequest None 1 test_heap)
   \<and> completeBuffer 1 (Request_init 0 0\<lparr>pending := {2}\<rparr>, setRequest None 1 test_heap)
     = Inl AssertionFailed
   \<and> completeBuffers [1, 2, 1] (Request_init 0 0\<lparr>pending := {1, 2}\<rparr>, test_heap)
     = Inl AssertionFailed"
  using completeBuffer_twice [of 1 "Request_init 0 0\<lparr>pending := {1, 2}\<rparr>" test_heap]
  by (auto simp add: completeBuffer_in completeBuffer_notin Request_init_def test_heap_def)

text \<open>
  C10. After a successful \<^verbatim>\<open>addBuffer\<close> of a buffer, \<^verbatim>\<open>findBuffer\<close> returns that buffer
  for its stream and what it returned before for every other stream. On a request
  built from its constructor by \<^verbatim>\<open>addBuffer\<close> calls, the successful calls bound at most
  one buffer to each stream, \<^verbatim>\<open>findBuffer\<close> returns for a stream exactly the buffer that
  a successful call bound to it, and it returns \<^verbatim>\<open>nullptr\<close> exactly for the streams that
  no successful call bound.
\<close>

theorem findBuffer_bound:
  "(fst (addBuffer h b r) = 0 \<longrightarrow>
      findBuffer (snd (addBuffer h b r)) (buf_stream (h b)) = Some b
      \<and> (\<forall>s. s \<noteq> buf_stream (h b) \<longrightarrow>
            findBuffer (snd (addBuffer h b r)) s = findBuffer r s))
   \<and> distinct (map fst (bound_by h bs (Request_init c k)))
   \<and> (\<forall>s b'. findBuffer (addBuffers h bs (Request_init c k)) s = Some b'
        \<longleftrightarrow> (s, b') \<in> set (bound_by h bs (Request_init c k)))
   \<and> (\<forall>s. findBuffer (addBuffers h bs (Request_init c k)) s = None
        \<longleftrightarrow> s \<notin> fst ` set (bound_by h bs (Request_init c k)))"
proof -
  have find: "findBuffer r' s = map_of (bufferMap r') s" for r' s
    by (simp add: findBuffer_def map_find_def split: option.splits)
  have log: "findBuffer (addBuffers h bs (Request_init c k)) s
               = map_of (bound_by h bs (Request_init c k)) s" for s
    by (simp add: find addBuffers_map_of) (simp add: Request_init_def)
  have "findBuffer (addBuffers h bs (Request_init c k)) s = None
          \<longleftrightarrow> s \<notin> fst ` set (bound_by h bs (Request_init c k))" for s
    by (simp add: log map_of_eq_None_iff)
  moreover have "findBuffer (addBuffers h bs (Request_init c k)) s = Some b'
          \<longleftrightarrow> (s, b') \<in> set (bound_by h bs (Request_init c k))" for s b'
    by (simp add: log bound_by_distinct)
  moreover have "fst (addBuffer h b r) = 0 \<longrightarrow>
      findBuffer (snd (addBuffer h b r)) (buf_stream (h b)) = Some b
      \<and> (\<forall>s. s \<noteq> buf_stream (h b) \<longrightarrow>
            findBuffer (snd (addBuffer h b r)) s = findBuffer r s)"
    by (simp add: find addBuffer_map_of)
  ultimately show ?thesis
    using bound_by_distinct [of h bs "Request_init c k"] by blast
qed

theorem findBuffer_bound_witness:
  "fst (addBuffer test_heap 3 (Request_init 0 0\<lparr>bufferMap := [(Some 1, 1)]\<rparr>)) = 0
   \<and> findBuffer (snd (addBuffer test_heap 3 (Request_init 0 0\<lparr>bufferMap := [(Some 1, 1)]\<rparr>)))
        (Some 3) = Some 3
   \<and> findBuffer (snd (addBuffer test_heap 3 (Request_init 0 0\<lparr>bufferMap := [(Some 1, 1)]\<rparr>)))
        (Some 1) = Some 1
   \<and> bound_by test_heap [1, 5, 4, 3] (Request_init 0 0) = [(Some 1, 1), (Some 3, 3)]
   \<and> findBuffer (addBuffers test_heap [1, 5, 4, 3] (Request_init 0 0)) (Some 1) = Some 1
   \<and> findBuffer (addBuffers test_heap [1, 5, 4, 3] (Request_init 0 0)) (Some 2) = None
   \<and> findBuffer (addBuffers test_heap [1, 5, 4, 3] (Request_init 0 0)) None = None"
  using findBuffer_bound [of test_heap 3 "Request_init 0 0\<lparr>bufferMap := [(Some 1, 1)]\<rparr>"
      "[1, 5, 4, 3]" 0 0]
  by (simp add: addBuffer_def findBuffer_def map_find_def test_heap_def Request_init_def
      EINVAL_def EEXIST_def)

section \<open>Properties of the message transport\<close>

lemma get_put_u32: "get_u32 (put_u32 w @ bs) = w"
proof (rule bit_word_eqI)
  fix n
  assume "n < LENGTH(32)"
  then have n: "n < 32" by simp
  consider "n < 8" | "8 \<le> n" "n < 16" | "16 \<le> n" "n < 24" | "24 \<le> n"
    by linarith
  then show "bit (get_u32 (put_u32 w @ bs)) n = bit w n"
    using n by cases (auto simp add: put_u32_def bit_simps)
qed

lemma length_put_u32 [simp]: "length (put_u32 w) = 4"
  by (simp add: put_u32_def)

lemma unat_u32: "n < 2 ^ 32 \<Longrightarrow> unat (of_nat n :: 32 word) = n"
  by (simp add: unat_of_nat)

lemma receive_frame:
  assumes "nonempty p" and "fits_header p"
  shows "receive \<lparr>inband = frame p @ bs, ancillary = fds p @ ds\<rparr>
           = Inr (p, \<lparr>inband = bs, ancillary = ds\<rparr>)"
proof -
  let ?w = "\<lparr>inband = frame p @ bs, ancillary = fds p @ ds\<rparr>"
  have len: "unat (get_u32 (inband ?w)) = length (data p)"
    using assms(2) by (simp add: frame_def get_put_u32 unat_u32 fits_header_def)
  have cnt: "unat (get_u32 (drop 4 (inband ?w))) = length (fds p)"
    using assms(2) by (simp add: frame_def get_put_u32 unat_u32 fits_header_def)
  have body: "drop 8 (inband ?w) = data p @ bs"
    by (simp add: frame_def)
  have long: "\<not> length (inband ?w) < 8"
    by (simp add: frame_def)
  from assms(1) have ne: "\<not> (length (data p) = 0 \<and> length (fds p) = 0)"
    by (simp add: nonempty_def)
  show ?thesis
    unfolding receive_def Let_def len cnt body
    using long ne by simp
qed

lemma send_nonempty:
  "nonempty p \<Longrightarrow>
   send p w = (0, \<lparr>inband = inband w @ frame p, ancillary = ancillary w @ fds p\<rparr>)"
  by (auto simp add: send_def nonempty_def)

lemma send_all_nonempty:
  "\<forall>p \<in> set ps. nonempty p \<Longrightarrow>
   send_all ps w =
     (replicate (length ps) 0,
      \<lparr>inband = inband w @ concat (map frame ps),
       ancillary = ancillary w @ concat (map fds ps)\<rparr>)"
proof (induction ps arbitrary: w)
  case Nil
  show ?case by simp
next
  case (Cons p ps)
  then show ?case by (simp add: send_nonempty)
qed

lemma receive_n_frames:
  "\<forall>p \<in> set ps. nonempty p \<and> fits_header p \<Longrightarrow>
   receive_n (length ps)
      \<lparr>inband = concat (map frame ps) @ bs, ancillary = concat (map fds ps) @ ds\<rparr>
     = Inr (ps, \<lparr>inband = bs, ancillary = ds\<rparr>)"
proof (induction ps)
  case Nil
  show ?case by simp
next
  case (Cons p ps)
  then show ?case by (simp add: receive_frame)
qed

lemma receive_nonempty:
  assumes "receive w = Inr (p, w')"
  shows "nonempty p"
proof -
  let ?n = "unat (get_u32 (inband w))"
  let ?k = "unat (get_u32 (drop 4 (inband w)))"
  from assms have ok: "\<not> (?n = 0 \<and> ?k = 0)" "?n \<le> length (drop 8 (inband w))"
      "?k \<le> length (ancillary w)"
    and p: "p = \<lparr>data = take ?n (drop 8 (inband w)), fds = take ?k (ancillary w)\<rparr>"
    by (auto simp add: receive_def Let_def split: if_splits)
  from ok show ?thesis
    unfolding p nonempty_def by (cases "?n = 0") auto
qed

text \<open>
  C7. \<^verbatim>\<open>send\<close> returns \<^verbatim>\<open>-EINVAL\<close> exactly for the payload with no byte and no descriptor,
  and then writes nothing to the wire; any other payload is accepted. Whatever the wire
  holds, \<^verbatim>\<open>receive\<close> never delivers an empty payload to the peer. The test
  \<^verbatim>\<open>testEmptyFail\<close> passes.
\<close>

theorem send_empty_rejected:
  "(fst (send p w) = - EINVAL \<longleftrightarrow> data p = [] \<and> fds p = [])
   \<and> (data p = [] \<and> fds p = [] \<longrightarrow> snd (send p w) = w)
   \<and> (data p \<noteq> [] \<or> fds p \<noteq> [] \<longrightarrow> fst (send p w) = 0)
   \<and> (\<forall>p' w'. receive w = Inr (p', w') \<longrightarrow> data p' \<noteq> [] \<or> fds p' \<noteq> [])
   \<and> testEmptyFail w = 0"
proof -
  have "data p' \<noteq> [] \<or> fds p' \<noteq> []" if "receive w = Inr (p', w')" for p' w'
    using receive_nonempty [OF that] by (simp add: nonempty_def)
  then show ?thesis
    by (auto simp add: send_def testEmptyFail_def EINVAL_def)
qed

theorem send_empty_rejected_witness:
  "send \<lparr>data = [], fds = []\<rparr> empty_wire = (- EINVAL, empty_wire)
   \<and> receive empty_wire = Inl Protocol
   \<and> fst (send \<lparr>data = [], fds = [3]\<rparr> empty_wire) = 0
   \<and> fst (send \<lparr>data = [0], fds = []\<rparr> empty_wire) = 0
   \<and> testEmptyFail empty_wire = 0"
  using send_empty_rejected [of "\<lparr>data = [], fds = []\<rparr>" empty_wire]
    send_empty_rejected [of "\<lparr>data = [], fds = [3]\<rparr>" empty_wire]
    send_empty_rejected [of "\<lparr>data = [0], fds = []\<rparr>" empty_wire]
  by (auto simp add: prod_eq_iff receive_def empty_wire_def)

text \<open>
  C8. Non-empty payloads whose byte length and descriptor count the \<^verbatim>\<open>u32\<close> fields of
  the header announce, sent one after the other on an empty wire, are all accepted, and
  as many receives on the peer return the same payloads in the same order, each with its
  own bytes and its own descriptors in send order, and leave the wire empty.
\<close>

theorem roundtrip:
  assumes "\<forall>p \<in> set ps. nonempty p \<and> fits_header p"
  shows "\<exists>w. send_all ps empty_wire = (replicate (length ps) 0, w)
           \<and> receive_n (length ps) w = Inr (ps, empty_wire)"
proof -
  from assms have "\<forall>p \<in> set ps. nonempty p" by simp
  from send_all_nonempty [OF this, of empty_wire]
  have sent: "send_all ps empty_wire =
       (replicate (length ps) 0,
        \<lparr>inband = concat (map frame ps) @ [], ancillary = concat (map fds ps) @ []\<rparr>)"
    by (simp add: empty_wire_def)
  from receive_n_frames [OF assms, of "[]" "[]"] sent show ?thesis
    by (simp add: empty_wire_def)
qed

theorem roundtrip_witness:
  "nonempty testReverse_message \<and> fits_header testReverse_message
   \<and> nonempty (testFdOrder_message 7 8) \<and> fits_header (testFdOrder_message 7 8)
   \<and> (\<exists>w. send_all [testReverse_message, testFdOrder_message 7 8] empty_wire = ([0, 0], w)
         \<and> receive_n (Suc (Suc 0)) w = Inr ([testReverse_message, testFdOrder_message 7 8], empty_wire))"
  using roundtrip [of "[testReverse_message, testFdOrder_message 7 8]"]
  by (simp add: nonempty_def fits_header_def testReverse_message_def testFdOrder_message_def)

section \<open>Properties of process supervision\<close>

lemma supervise_append:
  "supervise (as @ bs) p =
     (let (es, p') = supervise as p; (es', p'') = supervise bs p' in (es @ es', p''))"
proof (induction as arbitrary: p)
  case Nil
  show ?case by simp
next
  case (Cons a as)
  show ?case
    by (cases a) (simp_all add: Cons.IH kill_def split: prod.splits)
qed

lemma supervise_not_running:
  "proc_state p \<noteq> Running \<Longrightarrow> supervise as p = ([], p)"
proof (induction as)
  case Nil
  show ?case by simp
next
  case (Cons a as)
  then show ?case by (cases a) (simp_all add: reap_def kill_def)
qed

lemma supervise_other_children:
  "\<forall>st. Terminated child st \<notin> set as \<Longrightarrow> proc_pid p = Some child \<Longrightarrow>
   supervise as p = ([], p)"
proof (induction as)
  case Nil
  show ?case by simp
next
  case (Cons a as)
  then show ?case by (cases a) (auto simp add: reap_def kill_def)
qed

lemma supervise_exit:
  assumes "\<forall>st. Terminated child st \<notin> set pre"
    and "proc_state p = Running" and "proc_pid p = Some child"
  shows "fst (supervise (pre @ Terminated child st # post) p) =
           (case st of ChildExited code \<Rightarrow> [(NormalExit, code)]
                     | ChildSignalled sig \<Rightarrow> [(SignalExit, sig)])"
proof -
  have pre: "supervise pre p = ([], p)"
    using assms(1,3) by (rule supervise_other_children)
  show ?thesis
    using assms(2,3)
    by (cases st) (simp_all add: supervise_append pre reap_def supervise_not_running)
qed

text \<open>
  C9. A process whose start succeeded raises no \<^verbatim>\<open>finished\<close> event before the
  termination of its child is notified, and exactly one once it is, whatever
  notifications and kill requests come before and after: a normal exit with code \<open>code\<close>
  is reported as NormalExit with that code, which the listener of the test stores
  unchanged, and an exit by signal as SignalExit, a different status. A process whose
  start failed with Exec raises no event.
\<close>

theorem finished_once:
  assumes "\<forall>st. Terminated child st \<notin> set pre"
  shows "fst (start True child Process_init) = None
       \<and> fst (supervise pre (snd (start True child Process_init))) = []
       \<and> fst (supervise (pre @ Terminated child (ChildExited code) # post)
                (snd (start True child Process_init))) = [(NormalExit, code)]
       \<and> fst (supervise (pre @ Terminated child (ChildSignalled sig) # post)
                (snd (start True child Process_init))) = [(SignalExit, sig)]
       \<and> (NormalExit, code) \<noteq> (SignalExit, sig)
       \<and> dispatch [(NormalExit, code)] t = \<lparr>exitStatus = Some NormalExit, exitCode = Some code\<rparr>
       \<and> fst (start False child Process_init) = Some Exec
       \<and> fst (supervise as (snd (start False child Process_init))) = []"
proof -
  let ?p = "snd (start True child Process_init)"
  have run: "proc_state ?p = Running" and pid: "proc_pid ?p = Some child"
    by (simp_all add: start_def)
  have "fst (supervise pre ?p) = []"
    using supervise_other_children [OF assms pid] by simp
  moreover have "fst (supervise (pre @ Terminated child (ChildExited code) # post) ?p)
      = [(NormalExit, code)]"
    using supervise_exit [OF assms run pid, of "ChildExited code" post] by simp
  moreover have "fst (supervise (pre @ Terminated child (ChildSignalled sig) # post) ?p)
      = [(SignalExit, sig)]"
    using supervise_exit [OF assms run pid, of "ChildSignalled sig" post] by simp
  moreover have "fst (supervise as (snd (start False child Process_init))) = []"
    by (simp add: supervise_not_running start_def Process_init_def)
  moreover have "dispatch [(NormalExit, code)] t
      = \<lparr>exitStatus = Some NormalExit, exitCode = Some code\<rparr>"
    by (simp add: procFinished_def)
  ultimately show ?thesis
    by (simp add: start_def)
qed

theorem finished_once_witness:
  "(\<forall>st. Terminated 100 st \<notin> set [Terminated 7 (ChildSignalled 9), Kill])
   \<and> fst (supervise ([Terminated 7 (ChildSignalled 9), Kill]
            @ Terminated 100 (ChildExited 42) # [Kill, Terminated 100 (ChildSignalled 9)])
          (snd (start True 100 Process_init))) = [(NormalExit, 42)]
   \<and> fst (supervise [Terminated 100 (ChildExited 42)] (snd (start False 100 Process_init))) = []"
  using finished_once [of 100 "[Terminated 7 (ChildSignalled 9), Kill]" 42
      "[Kill, Terminated 100 (ChildSignalled 9)]" 9 "\<lparr>exitStatus = None, exitCode = None\<rparr>"
      "[Terminated 100 (ChildExited 42)]"]
  by simp

end
